theory Spec2Isabelle
  imports Complex_Main
begin

section \<open>Model-parallel layers of \<open>mpu/layers.py\<close>\<close>

text \<open>
  Tensors hold exact reals: a vector is a list, a matrix is the list of its rows.
  Python integers (sizes, ranks, token ids, labels) are unbounded, hence \<open>int\<close>.
  Every raise of the source is a value \<open>Inl e\<close> of the result type.
\<close>

type_synonym vec = "real list"
type_synonym mat = "real list list"

datatype error =
    ConfigurationError
  | ZeroDivisionError
  | ShapeMismatchError
  | IndexError
  | CollectiveTransportError

definition bind_err :: "error + 'a \<Rightarrow> ('a \<Rightarrow> error + 'b) \<Rightarrow> error + 'b" where
  "bind_err r f = (case r of Inl e \<Rightarrow> Inl e | Inr v \<Rightarrow> f v)"

subsection \<open>Partition utility (\<open>mpu/utils.py\<close>)\<close>

text \<open>
  Modelled from the spec: \<open>divide\<close> of \<open>mpu/utils.py\<close>, which is imported by
  \<open>layers.py\<close> but is not among the source files. Section 4.1: it returns the exact
  integer quotient and fails with a configuration error when
  \<open>numerator % denominator != 0\<close>. Python's \<open>%\<close> raises on a zero denominator, which
  is the first branch.
\<close>

definition divide :: "int \<Rightarrow> int \<Rightarrow> error + int" where
  "divide numerator denominator =
     (if denominator = 0 then Inl ZeroDivisionError
      else if numerator mod denominator \<noteq> 0 then Inl ConfigurationError
      else Inr (numerator div denominator))"

text \<open>
  Modelled from the spec: \<open>VocabUtility.vocab_range_from_per_partition_vocab_size\<close> of
  \<open>mpu/utils.py\<close> (not among the source files). Section 4.1: it returns
  \<open>[rank * per_partition_size, (rank+1) * per_partition_size)\<close>.
\<close>

definition vocab_range_from_per_partition_vocab_size :: "int \<Rightarrow> int \<Rightarrow> int \<Rightarrow> int \<times> int" where
  "vocab_range_from_per_partition_vocab_size per_partition_vocab_size rank world_size =
     (rank * per_partition_vocab_size, (rank + 1) * per_partition_vocab_size)"

text \<open>
  Modelled from the spec: \<open>VocabUtility.vocab_range_from_global_vocab_size\<close> of
  \<open>mpu/utils.py\<close> (not among the source files). Section 4.1: the range of
  \<open>per_partition = divide(global_size, world_size)\<close>.
\<close>

definition vocab_range_from_global_vocab_size :: "int \<Rightarrow> int \<Rightarrow> int \<Rightarrow> error + int \<times> int" where
  "vocab_range_from_global_vocab_size global_vocab_size rank world_size =
     bind_err (divide global_vocab_size world_size)
       (\<lambda>per_partition_vocab_size.
          Inr (vocab_range_from_per_partition_vocab_size per_partition_vocab_size rank world_size))"

text \<open>The indices of a half-open range; a failed call owns no index.\<close>

definition owned_indices :: "error + int \<times> int \<Rightarrow> int set" where
  "owned_indices r = (case r of Inl e \<Rightarrow> {} | Inr (lo, hi) \<Rightarrow> {lo ..< hi})"

subsection \<open>Primitives of the tensor engine (torch)\<close>

text \<open>
  \<open>F.linear(input, weight, bias)\<close> is \<open>input @ weight^T + bias\<close>: entry \<open>(i, j)\<close> is the
  dot product of row \<open>i\<close> of the input and row \<open>j\<close> of the weight, plus \<open>bias[j]\<close>.
  It raises when the inner dimensions differ or the bias does not have one entry per
  weight row.
\<close>

definition dot :: "vec \<Rightarrow> vec \<Rightarrow> real" where
  "dot u v = sum_list (map2 (*) u v)"

definition linear_row :: "vec \<Rightarrow> mat \<Rightarrow> vec option \<Rightarrow> vec" where
  "linear_row x weight bias =
     (case bias of
        None \<Rightarrow> map (dot x) weight
      | Some b \<Rightarrow> map2 (+) (map (dot x) weight) b)"

definition F_linear :: "mat \<Rightarrow> mat \<Rightarrow> vec option \<Rightarrow> error + mat" where
  "F_linear input weight bias =
     (if (\<forall>x\<in>set input. \<forall>w\<in>set weight. length x = length w)
         \<and> (case bias of None \<Rightarrow> True | Some b \<Rightarrow> length b = length weight)
      then Inr (map (\<lambda>x. linear_row x weight bias) input)
      else Inl ShapeMismatchError)"

text \<open>
  \<open>F.normalize(weight)\<close> with its defaults \<open>p=2, dim=1, eps=1e-12\<close>: every row is
  divided by \<open>max(norm, eps)\<close>.
\<close>

definition F_normalize :: "mat \<Rightarrow> mat" where
  "F_normalize weight =
     map (\<lambda>row. map (\<lambda>x. x / max (sqrt (sum_list (map (\<lambda>y. y ^ 2) row))) (1 / 10 ^ 12)) row)
       weight"

definition clamp :: "real \<Rightarrow> real \<Rightarrow> mat \<Rightarrow> mat" where
  "clamp lo hi t = map (map (\<lambda>x. min (max x lo) hi)) t"

text \<open>
  \<open>F.embedding(input, weight, None, None, 2., False, False)\<close>: row \<open>weight[t]\<close> for
  every id \<open>t\<close>; an id outside \<open>[0, rows)\<close> raises. The ids of \<open>input\<close> are listed in
  row-major order, so the result has one row per id.
\<close>

definition F_embedding :: "int list \<Rightarrow> mat \<Rightarrow> error + mat" where
  "F_embedding input weight =
     (if \<forall>t\<in>set input. 0 \<le> t \<and> t < int (length weight)
      then Inr (map (\<lambda>t. weight ! nat t) input)
      else Inl IndexError)"

text \<open>\<open>x[mask] = v\<close> for a mask computed from \<open>x\<close> itself (same shape).\<close>

definition masked_fill :: "'a list \<Rightarrow> bool list \<Rightarrow> 'a \<Rightarrow> 'a list" where
  "masked_fill xs msk v = map2 (\<lambda>x b. if b then v else x) xs msk"

text \<open>\<open>x[mask]\<close>: the entries where the mask holds, in order; the shapes must agree.\<close>

definition bool_index :: "'a list \<Rightarrow> bool list \<Rightarrow> error + 'a list" where
  "bool_index xs msk =
     (if length msk = length xs then Inr (map fst (filter snd (zip xs msk)))
      else Inl IndexError)"

text \<open>
  \<open>x[mask] = vs\<close>: the entries where the mask holds are replaced, in order, by the
  entries of \<open>vs\<close>, which has one entry per selected position.
\<close>

fun masked_assign :: "'a list \<Rightarrow> bool list \<Rightarrow> 'a list \<Rightarrow> 'a list" where
  "masked_assign (x # xs) (True # msk) (v # vs) = v # masked_assign xs msk vs"
| "masked_assign (x # xs) (False # msk) vs = x # masked_assign xs msk vs"
| "masked_assign xs msk vs = xs"

text \<open>An index \<open>i\<close> into a dimension of size \<open>n\<close>: \<open>-n \<le> i < n\<close>, negative from the end.\<close>

definition norm_index :: "nat \<Rightarrow> int \<Rightarrow> nat option" where
  "norm_index n i =
     (if 0 \<le> i \<and> i < int n then Some (nat i)
      else if - int n \<le> i \<and> i < 0 then Some (nat (int n + i))
      else None)"

definition entry_at :: "mat \<Rightarrow> int \<times> int \<Rightarrow> (nat \<times> nat) option" where
  "entry_at t rc =
     (case norm_index (length t) (fst rc) of
        None \<Rightarrow> None
      | Some i \<Rightarrow>
          (case norm_index (length (t ! i)) (snd rc) of
             None \<Rightarrow> None
           | Some j \<Rightarrow> Some (i, j)))"

text \<open>\<open>t[rows, cols]\<close> with two index vectors: the entries \<open>t[rows[k], cols[k]]\<close>.\<close>

definition index_get :: "mat \<Rightarrow> int list \<Rightarrow> int list \<Rightarrow> error + vec" where
  "index_get t rows cols =
     (if length rows = length cols
      then (case those (map (entry_at t) (zip rows cols)) of
              None \<Rightarrow> Inl IndexError
            | Some ijs \<Rightarrow> Inr (map (\<lambda>(i, j). t ! i ! j) ijs))
      else Inl IndexError)"

text \<open>\<open>t[rows, cols] = vs\<close>: entry \<open>(rows[k], cols[k])\<close> becomes \<open>vs[k]\<close>, in order.\<close>

definition put_entry :: "mat \<Rightarrow> (nat \<times> nat) \<times> real \<Rightarrow> mat" where
  "put_entry t ijv = (case ijv of ((i, j), v) \<Rightarrow> t[i := (t ! i)[j := v]])"

definition index_put :: "mat \<Rightarrow> int list \<Rightarrow> int list \<Rightarrow> vec \<Rightarrow> error + mat" where
  "index_put t rows cols vs =
     (if length rows = length cols
      then (case those (map (entry_at t) (zip rows cols)) of
              None \<Rightarrow> Inl IndexError
            | Some ijs \<Rightarrow>
                if length vs = length ijs then Inr (foldl put_entry t (zip ijs vs))
                else Inl ShapeMismatchError)
      else Inl IndexError)"

definition arange :: "nat \<Rightarrow> int list" where
  "arange n = map int [0 ..< n]"

definition scale :: "real \<Rightarrow> mat \<Rightarrow> mat" where
  "scale c t = map (map (\<lambda>x. x * c)) t"

subsection \<open>Collectives (\<open>mpu/mappings.py\<close>)\<close>

text \<open>
  A model-parallel group is the list of its ranks, rank \<open>r\<close> at position \<open>r\<close>; every
  rank runs the same forward on its own layer object and its own input. A collective
  takes the tensors of all ranks, in rank order, and fails when they do not fit.
\<close>

fun those_err :: "(error + 'a) list \<Rightarrow> error + 'a list" where
  "those_err [] = Inr []"
| "those_err (r # rs) =
     (case r of Inl e \<Rightarrow> Inl e
      | Inr v \<Rightarrow> (case those_err rs of Inl e \<Rightarrow> Inl e | Inr vs \<Rightarrow> Inr (v # vs)))"

text \<open>
  Modelled from the spec: \<open>copy_to_model_parallel_region\<close> of \<open>mpu/mappings.py\<close> (not among
  the source files). Section 4.4: a no-op in the forward direction.
\<close>

definition copy_to_model_parallel_region :: "'a \<Rightarrow> 'a" where
  "copy_to_model_parallel_region input = input"

text \<open>
  Modelled from the spec: \<open>reduce_from_model_parallel_region\<close> of \<open>mpu/mappings.py\<close> (not
  among the source files). Section 6, \<open>reduce_sum\<close>: the element-wise sum across ranks,
  of the same shape, identical on all ranks.
\<close>

definition reduce_from_model_parallel_region :: "mat list \<Rightarrow> error + mat" where
  "reduce_from_model_parallel_region ts =
     (case ts of
        [] \<Rightarrow> Inl CollectiveTransportError
      | t # rest \<Rightarrow>
          if \<forall>u\<in>set rest. map length u = map length t
          then Inr (map (\<lambda>i. map (\<lambda>j. sum_list (map (\<lambda>u. u ! i ! j) ts)) [0 ..< length (t ! i)])
                      [0 ..< length t])
          else Inl CollectiveTransportError)"

text \<open>
  Modelled from the spec: \<open>gather_from_model_parallel_region\<close> of \<open>mpu/mappings.py\<close> (not
  among the source files). Section 6, \<open>gather_concat\<close> along the last dimension: row \<open>i\<close>
  of the result is the concatenation, in rank order, of row \<open>i\<close> of every rank.
\<close>

definition gather_from_model_parallel_region :: "mat list \<Rightarrow> error + mat" where
  "gather_from_model_parallel_region ts =
     (case ts of
        [] \<Rightarrow> Inl CollectiveTransportError
      | t # rest \<Rightarrow>
          if \<forall>u\<in>set rest. length u = length t
          then Inr (map (\<lambda>i. concat (map (\<lambda>u. u ! i) ts)) [0 ..< length t])
          else Inl CollectiveTransportError)"

text \<open>
  Modelled from the spec: \<open>scatter_to_model_parallel_region\<close> of \<open>mpu/mappings.py\<close> (not
  among the source files). Section 6, \<open>scatter_split\<close> along the last dimension: each
  rank receives its contiguous slice of every row.
\<close>

definition scatter_to_model_parallel_region :: "nat \<Rightarrow> nat \<Rightarrow> mat \<Rightarrow> mat" where
  "scatter_to_model_parallel_region rank world_size input =
     map (\<lambda>row. take (length row div world_size) (drop (rank * (length row div world_size)) row))
       input"

text \<open>
  Modelled from the spec: \<open>gather_from_model_parallel_region_align_target_dim\<close> of
  \<open>mpu/mappings.py\<close> (not among the source files). Section 4.7, step 1: the gather
  along the batch dimension, after which every rank holds the full batch.
\<close>

definition gather_from_model_parallel_region_align_target_dim :: "'a list list \<Rightarrow> 'a list" where
  "gather_from_model_parallel_region_align_target_dim ts = concat ts"

subsection \<open>\<open>VocabParallelEmbedding\<close>\<close>

text \<open>
  The fields of a layer object carry the initials of its class, as the records of one
  theory share their field names. The fields \<open>padding_idx\<close>, \<open>max_norm\<close>, \<open>norm_type\<close>,
  \<open>scale_grad_by_freq\<close> and \<open>sparse\<close> are constants (\<open>None, None, 2., False, False\<close>) and
  are folded into \<open>F_embedding\<close>.
\<close>

record VocabParallelEmbedding =
  vpe_num_embeddings :: int
  vpe_embedding_dim :: int
  vpe_vocab_start_index :: int
  vpe_vocab_end_index :: int
  vpe_num_embeddings_per_partition :: int
  vpe_weight :: mat

text \<open>\<open>output_parallel[input_mask, :] = 0.0\<close>\<close>

definition zero_rows :: "mat \<Rightarrow> bool list \<Rightarrow> mat" where
  "zero_rows t msk = map2 (\<lambda>row b. if b then map (\<lambda>x. 0) row else row) t msk"

text \<open>\<open>VocabParallelEmbedding.forward\<close> up to the reduction (lines 105 to 117).\<close>

definition VocabParallelEmbedding_output_parallel ::
  "VocabParallelEmbedding \<Rightarrow> int list \<Rightarrow> error + mat" where
  "VocabParallelEmbedding_output_parallel self input =
     (let input_mask = map (\<lambda>t. t < vpe_vocab_start_index self \<or> t \<ge> vpe_vocab_end_index self) input;
          masked_input = map (\<lambda>t. t - vpe_vocab_start_index self) input;
          masked_input = masked_fill masked_input input_mask 0
      in bind_err (F_embedding masked_input (vpe_weight self))
           (\<lambda>output_parallel. Inr (zero_rows output_parallel input_mask)))"

text \<open>The forward of the group: every rank's local output, then the reduction (line 119).\<close>

definition VocabParallelEmbedding_forward ::
  "(VocabParallelEmbedding \<times> int list) list \<Rightarrow> error + mat" where
  "VocabParallelEmbedding_forward ranks =
     bind_err (those_err (map (\<lambda>(self, input). VocabParallelEmbedding_output_parallel self input) ranks))
       reduce_from_model_parallel_region"

text \<open>
  The state \<open>__init__\<close> leaves behind: the shard has one row per owned id, the owned
  range is not empty, and every row has \<open>embedding_dim\<close> entries.
\<close>

definition vpe_ok :: "VocabParallelEmbedding \<Rightarrow> bool" where
  "vpe_ok self =
     (int (length (vpe_weight self)) = vpe_vocab_end_index self - vpe_vocab_start_index self
      \<and> vpe_vocab_start_index self < vpe_vocab_end_index self
      \<and> 0 \<le> vpe_embedding_dim self
      \<and> (\<forall>row\<in>set (vpe_weight self). int (length row) = vpe_embedding_dim self))"

text \<open>The row a rank contributes for token id \<open>t\<close>.\<close>

definition vpe_local_row :: "VocabParallelEmbedding \<Rightarrow> int \<Rightarrow> vec" where
  "vpe_local_row self t =
     (if vpe_vocab_start_index self \<le> t \<and> t < vpe_vocab_end_index self
      then vpe_weight self ! nat (t - vpe_vocab_start_index self)
      else replicate (nat (vpe_embedding_dim self)) 0)"

subsection \<open>\<open>ParallelEmbedding\<close>\<close>

record ParallelEmbedding =
  pe_num_embeddings :: int
  pe_embedding_dim :: int
  pe_embedding_dim_per_partition :: int
  pe_weight :: mat

text \<open>\<open>ParallelEmbedding.forward\<close> (lines 162 to 169).\<close>

definition ParallelEmbedding_output_parallel :: "ParallelEmbedding \<Rightarrow> int list \<Rightarrow> error + mat" where
  "ParallelEmbedding_output_parallel self input =
     (let input_parallel = copy_to_model_parallel_region input
      in F_embedding input_parallel (pe_weight self))"

definition ParallelEmbedding_forward :: "(ParallelEmbedding \<times> int list) list \<Rightarrow> error + mat" where
  "ParallelEmbedding_forward ranks =
     bind_err (those_err (map (\<lambda>(self, input). ParallelEmbedding_output_parallel self input) ranks))
       gather_from_model_parallel_region"

subsection \<open>\<open>ColumnParallelLinear\<close>\<close>

record ColumnParallelLinear =
  cpl_input_size :: int
  cpl_output_size :: int
  cpl_gather_output :: bool
  cpl_output_size_per_partition :: int
  cpl_weight :: mat
  cpl_bias :: "vec option"
  cpl_master_weight :: "mat option"

text \<open>\<open>ColumnParallelLinear.forward\<close> (lines 227 to 237), on rank \<open>rank\<close> of the group.\<close>

definition ColumnParallelLinear_output_parallel :: "ColumnParallelLinear \<Rightarrow> mat \<Rightarrow> error + mat" where
  "ColumnParallelLinear_output_parallel self input =
     (let input_parallel = copy_to_model_parallel_region input
      in F_linear input_parallel (cpl_weight self) (cpl_bias self))"

definition ColumnParallelLinear_forward ::
  "(ColumnParallelLinear \<times> mat) list \<Rightarrow> nat \<Rightarrow> error + mat" where
  "ColumnParallelLinear_forward ranks rank =
     (case ranks ! rank of (self, input) \<Rightarrow>
        bind_err (ColumnParallelLinear_output_parallel self input)
          (\<lambda>output_parallel.
             if cpl_gather_output self
             then bind_err
                    (those_err (map (\<lambda>(s, i). ColumnParallelLinear_output_parallel s i) ranks))
                    gather_from_model_parallel_region
             else Inr output_parallel))"

subsection \<open>\<open>RowParallelLinear\<close>\<close>

record RowParallelLinear =
  rpl_input_size :: int
  rpl_output_size :: int
  rpl_input_is_parallel :: bool
  rpl_input_size_per_partition :: int
  rpl_weight :: mat
  rpl_bias :: "vec option"
  rpl_master_weight :: "mat option"

text \<open>
  \<open>output_ + self.bias\<close>: the bias is added to every row; it has one entry per
  column.
\<close>

definition add_bias :: "mat \<Rightarrow> vec \<Rightarrow> error + mat" where
  "add_bias t b =
     (if \<forall>row\<in>set t. length row = length b then Inr (map (\<lambda>row. map2 (+) row b) t)
      else Inl ShapeMismatchError)"

text \<open>\<open>RowParallelLinear.forward\<close> (lines 300 to 314), on rank \<open>rank\<close> of the group.\<close>

definition RowParallelLinear_output_parallel ::
  "nat \<Rightarrow> nat \<Rightarrow> RowParallelLinear \<Rightarrow> mat \<Rightarrow> error + mat" where
  "RowParallelLinear_output_parallel rank world_size self input =
     (let input_parallel =
            (if rpl_input_is_parallel self then input
             else scatter_to_model_parallel_region rank world_size input)
      in F_linear input_parallel (rpl_weight self) None)"

definition RowParallelLinear_forward ::
  "(RowParallelLinear \<times> mat) list \<Rightarrow> nat \<Rightarrow> error + mat" where
  "RowParallelLinear_forward ranks rank =
     bind_err
       (those_err (map (\<lambda>r. case ranks ! r of (s, i) \<Rightarrow>
                              RowParallelLinear_output_parallel r (length ranks) s i)
                    [0 ..< length ranks]))
       (\<lambda>locals.
          bind_err (reduce_from_model_parallel_region locals)
            (\<lambda>output.
               case rpl_bias (fst (ranks ! rank)) of
                 Some b \<Rightarrow> add_bias output b
               | None \<Rightarrow> Inr output))"

text \<open>
  The fusion of section 4.5: on every rank the output of the column-partitioned layer
  is fed, without a gather, into the row-partitioned layer.
\<close>

definition column_then_row ::
  "(ColumnParallelLinear \<times> mat) list \<Rightarrow> RowParallelLinear list \<Rightarrow> nat \<Rightarrow> error + mat" where
  "column_then_row col_ranks row_layers rank =
     bind_err (those_err (map (ColumnParallelLinear_forward col_ranks) [0 ..< length col_ranks]))
       (\<lambda>hidden. RowParallelLinear_forward (zip row_layers hidden) rank)"

subsection \<open>\<open>ArcfaceColumnParallelLinear\<close>\<close>

record ArcfaceColumnParallelLinear =
  acl_embedding_size :: int
  acl_output_classs_size :: int
  acl_gather_output :: bool
  acl_scalar :: real
  acl_marge :: real
  acl_cos_m :: real
  acl_sin_m :: real
  acl_mm :: real
  acl_threshold :: real
  acl_output_size_per_partition :: int
  acl_vocab_start_index :: int
  acl_vocab_end_index :: int
  acl_weight :: mat
  acl_bias :: "vec option"
  acl_master_weight :: "mat option"

text \<open>
  \<open>ArcfaceColumnParallelLinear.forward\<close> from line 427 to line 448: the logits of one
  rank, computed from the gathered embeddings and the gathered labels.
\<close>

definition ArcfaceColumnParallelLinear_cos_theta ::
  "ArcfaceColumnParallelLinear \<Rightarrow> mat \<Rightarrow> int list \<Rightarrow> error + mat" where
  "ArcfaceColumnParallelLinear_cos_theta self input_embedding input_labels =
     (let inputBatch = length input_embedding;
          idx = arange inputBatch;
          label_inrange_mask =
            map (\<lambda>l. acl_vocab_start_index self \<le> l \<and> l < acl_vocab_end_index self) input_labels;
          masked_valid_label = map (\<lambda>l. l - acl_vocab_start_index self) input_labels
      in bind_err (bool_index idx label_inrange_mask) (\<lambda>row_idx.
         bind_err (bool_index masked_valid_label label_inrange_mask) (\<lambda>valid_label_idx.
         bind_err (F_linear input_embedding (F_normalize (acl_weight self)) (acl_bias self))
           (\<lambda>cos_theta.
         let cos_theta = clamp (- 1) 1 cos_theta
         in bind_err (index_get cos_theta row_idx valid_label_idx) (\<lambda>cos_theta_valid.
         let cos_theta_m =
               map (\<lambda>c. c * acl_cos_m self - sqrt (1 - c ^ 2) * acl_sin_m self) cos_theta_valid;
             below = map (\<lambda>c. c \<le> acl_threshold self) cos_theta_valid
         in bind_err (bool_index cos_theta_valid below) (\<lambda>kept.
         let cos_theta_m = masked_assign cos_theta_m below (map (\<lambda>c. c - acl_mm self) kept);
             cos_theta = scale 1 cos_theta
         in bind_err (index_put cos_theta row_idx valid_label_idx cos_theta_m) (\<lambda>cos_theta.
         Inr (scale (acl_scalar self) cos_theta))))))))"

text \<open>
  \<open>ArcfaceColumnParallelLinear.forward\<close> (lines 422 to 454) on rank \<open>rank\<close> of the group;
  every rank brings its layer, its embeddings and its labels.
\<close>

definition ArcfaceColumnParallelLinear_forward ::
  "(ArcfaceColumnParallelLinear \<times> mat \<times> int list) list \<Rightarrow> nat \<Rightarrow> error + mat \<times> int list" where
  "ArcfaceColumnParallelLinear_forward ranks rank =
     (let input_embedding =
            gather_from_model_parallel_region_align_target_dim (map (\<lambda>(s, e, l). e) ranks);
          input_labels =
            gather_from_model_parallel_region_align_target_dim (map (\<lambda>(s, e, l). l) ranks)
      in case ranks ! rank of (self, e, l) \<Rightarrow>
           bind_err (ArcfaceColumnParallelLinear_cos_theta self input_embedding input_labels)
             (\<lambda>cos_theta.
                if acl_gather_output self
                then bind_err
                       (those_err (map (\<lambda>(s, e, l).
                            ArcfaceColumnParallelLinear_cos_theta s input_embedding input_labels) ranks))
                       (\<lambda>all_cos_theta.
                          bind_err (gather_from_model_parallel_region all_cos_theta)
                            (\<lambda>cos_theta. Inr (cos_theta, input_labels)))
                else Inr (cos_theta, input_labels)))"

text \<open>
  The state \<open>__init__\<close> leaves behind: the shard has one row per owned class, every row
  has one entry per embedding coordinate, and a bias has one entry per owned class.
\<close>

definition acl_ok :: "ArcfaceColumnParallelLinear \<Rightarrow> nat \<Rightarrow> bool" where
  "acl_ok self d =
     (int (length (acl_weight self)) = acl_vocab_end_index self - acl_vocab_start_index self
      \<and> (\<forall>w\<in>set (acl_weight self). length w = d)
      \<and> (case acl_bias self of None \<Rightarrow> True | Some b \<Rightarrow> length b = length (acl_weight self)))"

text \<open>
  The plain clamped cosine similarity of sample \<open>x\<close> and the classes of the shard
  (lines 435 and 437), and the margin adjustment of one cosine (lines 440 to 443).
\<close>

definition plain_cosine :: "ArcfaceColumnParallelLinear \<Rightarrow> vec \<Rightarrow> vec" where
  "plain_cosine self x =
     map (\<lambda>c. min (max c (- 1)) 1) (linear_row x (F_normalize (acl_weight self)) (acl_bias self))"

definition margin_adjusted :: "ArcfaceColumnParallelLinear \<Rightarrow> real \<Rightarrow> real" where
  "margin_adjusted self c =
     (if c \<le> acl_threshold self then c - acl_mm self
      else c * acl_cos_m self - sqrt (1 - c ^ 2) * acl_sin_m self)"

subsection \<open>The non-partitioned layers\<close>

text \<open>
  The non-partitioned reference of sections 4.5 and 4.6, \<open>x @ W^T + b\<close>, written out
  entry by entry: entry \<open>(i, j)\<close> is \<open>\<Sum>k. x[i][k] * W[j][k]\<close>, plus \<open>b[j]\<close> when there is
  a bias.
\<close>

definition dense_linear :: "mat \<Rightarrow> mat \<Rightarrow> vec option \<Rightarrow> mat" where
  "dense_linear x W b =
     map (\<lambda>xi. map (\<lambda>j. (\<Sum>k\<leftarrow>[0 ..< length xi]. xi ! k * W ! j ! k)
                         + (case b of None \<Rightarrow> 0 | Some bv \<Rightarrow> bv ! j))
                 [0 ..< length W]) x"

text \<open>
  The whole weight from its shards: concatenated along dimension 0 (the rows of all
  shards in rank order) or along dimension 1 (row \<open>j\<close> is row \<open>j\<close> of every shard in
  rank order). The whole bias of a column-partitioned layer is the concatenation of the
  bias shards.
\<close>

definition cat_dim0 :: "mat list \<Rightarrow> mat" where
  "cat_dim0 ts = concat ts"

definition cat_dim1 :: "mat list \<Rightarrow> mat" where
  "cat_dim1 ts = (case ts of [] \<Rightarrow> [] | t # rest \<Rightarrow> map (\<lambda>i. concat (map (\<lambda>u. u ! i) ts)) [0 ..< length t])"

definition cat_bias :: "vec option list \<Rightarrow> vec option" where
  "cat_bias bs = (if \<forall>b\<in>set bs. b = None then None else Some (concat (map (\<lambda>b. case b of None \<Rightarrow> [] | Some v \<Rightarrow> v) bs)))"

section \<open>Partition ranges\<close>

lemma vocab_range_value:
  assumes "world_size \<noteq> 0" and "world_size dvd global_size"
  shows "vocab_range_from_global_vocab_size global_size rank world_size =
         Inr (rank * (global_size div world_size), (rank + 1) * (global_size div world_size))"
  using assms
  by (auto simp: vocab_range_from_global_vocab_size_def divide_def bind_err_def
      vocab_range_from_per_partition_vocab_size_def)

lemma owned_cover:
  fixes per :: int
  assumes "0 < w"
  shows "(\<Union>r\<in>{0..<w}. {r * per ..< (r + 1) * per}) = {0 ..< w * per}"
proof (cases "0 < per")
  case False
  then have "\<And>r. {r * per ..< (r + 1) * per} = {}"
    by (auto simp: algebra_simps)
  moreover have "w * per \<le> 0"
    using False assms by (simp add: mult_le_0_iff)
  ultimately show ?thesis by auto
next
  case True
  show ?thesis
  proof (intro set_eqI iffI)
    fix x assume "x \<in> (\<Union>r\<in>{0..<w}. {r * per ..< (r + 1) * per})"
    then obtain r where r: "0 \<le> r" "r < w" "r * per \<le> x" "x < (r + 1) * per"
      by auto
    have "0 \<le> r * per" using r True by simp
    moreover have "(r + 1) * per \<le> w * per"
      using r True by (intro mult_right_mono) auto
    ultimately show "x \<in> {0 ..< w * per}" using r by auto
  next
    fix x assume x: "x \<in> {0 ..< w * per}"
    let ?r = "x div per"
    have eq: "x = ?r * per + x mod per" by simp
    have m: "0 \<le> x mod per" "x mod per < per" using True by simp_all
    have "0 \<le> ?r" using x True by (simp add: pos_imp_zdiv_nonneg_iff)
    moreover have lo: "?r * per \<le> x" using eq m by linarith
    moreover have "x < (?r + 1) * per"
    proof -
      have "x < ?r * per + per" using eq m by linarith
      then show ?thesis by (simp add: distrib_right)
    qed
    moreover have "?r < w"
    proof (rule ccontr)
      assume "\<not> ?r < w"
      then have "w * per \<le> ?r * per" using True by (intro mult_right_mono) auto
      then show False using lo x by auto
    qed
    ultimately show "x \<in> (\<Union>r\<in>{0..<w}. {r * per ..< (r + 1) * per})"
      by auto
  qed
qed

lemma owned_disjoint:
  fixes per :: int
  assumes "r1 < r2"
  shows "{r1 * per ..< (r1 + 1) * per} \<inter> {r2 * per ..< (r2 + 1) * per} = {}"
proof (cases "0 < per")
  case False
  then have "{r1 * per ..< (r1 + 1) * per} = {}" by (auto simp: algebra_simps)
  then show ?thesis by simp
next
  case True
  have "(r1 + 1) * per \<le> r2 * per"
    using assms True by (intro mult_right_mono) auto
  then show ?thesis by auto
qed

text \<open>
  Claim C6. For a positive world size that divides the global size, every rank in
  \<open>[0, world_size)\<close> is given the half-open range
  \<open>[rank * per_partition, (rank+1) * per_partition)\<close> with
  \<open>per_partition = global_size / world_size\<close>; the ranges of all ranks together are
  exactly \<open>[0, global_size)\<close>, and the ranges of two different ranks share no index.
\<close>

theorem vocab_range_tiles:
  assumes "0 < world_size" and "world_size dvd global_size"
  shows "(\<forall>rank. 0 \<le> rank \<and> rank < world_size \<longrightarrow>
            vocab_range_from_global_vocab_size global_size rank world_size =
            Inr (rank * (global_size div world_size), (rank + 1) * (global_size div world_size)))
       \<and> (\<Union>rank\<in>{0..<world_size}.
            owned_indices (vocab_range_from_global_vocab_size global_size rank world_size))
           = {0 ..< global_size}
       \<and> (\<forall>r1 r2. 0 \<le> r1 \<and> r1 < world_size \<and> 0 \<le> r2 \<and> r2 < world_size \<and> r1 \<noteq> r2 \<longrightarrow>
            owned_indices (vocab_range_from_global_vocab_size global_size r1 world_size)
            \<inter> owned_indices (vocab_range_from_global_vocab_size global_size r2 world_size) = {})"
proof -
  let ?per = "global_size div world_size"
  have nz: "world_size \<noteq> 0" using assms(1) by simp
  have val: "\<And>rank. owned_indices (vocab_range_from_global_vocab_size global_size rank world_size)
                 = {rank * ?per ..< (rank + 1) * ?per}"
    by (simp add: vocab_range_value[OF nz assms(2)] owned_indices_def)
  have glob: "world_size * ?per = global_size"
    using assms(2) by simp
  have cover: "(\<Union>rank\<in>{0..<world_size}.
            owned_indices (vocab_range_from_global_vocab_size global_size rank world_size))
           = {0 ..< global_size}"
    using owned_cover[OF assms(1), of ?per] by (simp only: val glob)
  have disj: "{r1 * ?per ..< (r1 + 1) * ?per} \<inter> {r2 * ?per ..< (r2 + 1) * ?per} = {}"
    if "r1 \<noteq> r2" for r1 r2 :: int
  proof (cases "r1 < r2")
    case True
    then show ?thesis by (rule owned_disjoint)
  next
    case False
    then have "r2 < r1" using that by simp
    then show ?thesis using owned_disjoint[of r2 r1 ?per] by (simp add: Int_commute)
  qed
  show ?thesis
  proof (intro conjI allI impI)
    fix rank :: int
    show "vocab_range_from_global_vocab_size global_size rank world_size =
          Inr (rank * ?per, (rank + 1) * ?per)"
      by (rule vocab_range_value[OF nz assms(2)])
  next
    show "(\<Union>rank\<in>{0..<world_size}.
            owned_indices (vocab_range_from_global_vocab_size global_size rank world_size))
           = {0 ..< global_size}"
      by (rule cover)
  next
    fix r1 r2 :: int
    assume "0 \<le> r1 \<and> r1 < world_size \<and> 0 \<le> r2 \<and> r2 < world_size \<and> r1 \<noteq> r2"
    then have "r1 \<noteq> r2" by simp
    from disj[OF this]
    show "owned_indices (vocab_range_from_global_vocab_size global_size r1 world_size)
            \<inter> owned_indices (vocab_range_from_global_vocab_size global_size r2 world_size) = {}"
      by (simp only: val)
  qed
qed

theorem vocab_range_tiles_witness:
  "vocab_range_from_global_vocab_size 8 1 2 = Inr (4, 8)
   \<and> (\<Union>rank\<in>{0..<2}. owned_indices (vocab_range_from_global_vocab_size 8 rank 2)) = {0 ..< 8}
   \<and> owned_indices (vocab_range_from_global_vocab_size 8 0 2)
       \<inter> owned_indices (vocab_range_from_global_vocab_size 8 1 2) = {}"
proof -
  have pos: "(0::int) < 2" by simp
  have dv: "(2::int) dvd 8" by simp
  note t = vocab_range_tiles[OF pos dv]
  from t have a: "vocab_range_from_global_vocab_size 8 1 2 = Inr (4, 8)"
    by simp
  from t have b: "(\<Union>rank\<in>{0..<2}. owned_indices (vocab_range_from_global_vocab_size 8 rank 2)) = {0 ..< 8}"
    by (rule conjunct1[OF conjunct2])
  from t have "\<forall>r1 r2. 0 \<le> r1 \<and> r1 < 2 \<and> 0 \<le> r2 \<and> r2 < 2 \<and> r1 \<noteq> r2 \<longrightarrow>
            owned_indices (vocab_range_from_global_vocab_size 8 r1 2)
            \<inter> owned_indices (vocab_range_from_global_vocab_size 8 r2 2) = {}"
    by (rule conjunct2[OF conjunct2])
  then have c: "owned_indices (vocab_range_from_global_vocab_size 8 0 2)
       \<inter> owned_indices (vocab_range_from_global_vocab_size 8 1 2) = {}"
    by (elim allE[of _ 0] allE[of _ 1]) simp
  from a b c show ?thesis by (intro conjI)
qed

section \<open>Lists and collectives\<close>

lemma bind_err_Inr [simp]: "bind_err (Inr v) f = f v"
  by (simp add: bind_err_def)

lemma bind_err_Inl [simp]: "bind_err (Inl e) f = Inl e"
  by (simp add: bind_err_def)

lemma map2_same: "map2 f (map g xs) (map h xs) = map (\<lambda>x. f (g x) (h x)) xs"
  by (induction xs) auto

lemma those_err_map_Inr: "those_err (map (\<lambda>x. Inr (f x)) xs) = Inr (map f xs)"
  by (induction xs) auto

lemma those_err_Inr:
  assumes "\<forall>x\<in>set xs. g x = Inr (f x)"
  shows "those_err (map g xs) = Inr (map f xs)"
  using assms by (induction xs) auto

lemma reduce_same_shape:
  assumes "ts \<noteq> []"
    and "\<forall>u\<in>set ts. length u = n \<and> (\<forall>row\<in>set u. length row = d)"
  shows "reduce_from_model_parallel_region ts =
         Inr (map (\<lambda>i. map (\<lambda>j. sum_list (map (\<lambda>u. u ! i ! j) ts)) [0 ..< d]) [0 ..< n])"
proof -
  obtain t rest where ts: "ts = t # rest"
    using assms(1) by (cases ts) auto
  have shape: "map length u = replicate n d" if "u \<in> set ts" for u
  proof -
    have "length u = n" "\<forall>row\<in>set u. length row = d" using assms(2) that by auto
    then show ?thesis by (intro nth_equalityI) auto
  qed
  have "\<forall>u\<in>set rest. map length u = map length t"
    using shape ts by auto
  moreover have "length t = n" using assms(2) ts by auto
  moreover have "length (t ! i) = d" if "i < n" for i
    using assms(2) ts that \<open>length t = n\<close> by auto
  ultimately show ?thesis
    by (simp add: reduce_from_model_parallel_region_def ts)
qed

section \<open>The vocabulary-partitioned embedding\<close>

lemma F_embedding_in_range:
  assumes "\<forall>t\<in>set input. 0 \<le> t \<and> t < int (length weight)"
  shows "F_embedding input weight = Inr (map (\<lambda>t. weight ! nat t) input)"
  using assms by (simp add: F_embedding_def)

lemma vpe_output_parallel_rows:
  assumes "vpe_ok self"
  shows "VocabParallelEmbedding_output_parallel self input = Inr (map (vpe_local_row self) input)"
proof -
  let ?s = "vpe_vocab_start_index self" and ?e = "vpe_vocab_end_index self"
  let ?w = "vpe_weight self"
  let ?masked = "map (\<lambda>t. if t < ?s \<or> ?e \<le> t then 0 else t - ?s) input"
  have len: "int (length ?w) = ?e - ?s" and ne: "?s < ?e"
    and rows: "\<forall>row\<in>set ?w. int (length row) = vpe_embedding_dim self"
    using assms by (auto simp: vpe_ok_def)
  have masked: "masked_fill (map (\<lambda>t. t - ?s) input) (map (\<lambda>t. t < ?s \<or> ?e \<le> t) input) 0 = ?masked"
    by (simp add: masked_fill_def map2_same)
  have ok: "\<forall>t\<in>set ?masked. 0 \<le> t \<and> t < int (length ?w)"
    using len ne by auto
  have emb: "F_embedding ?masked ?w = Inr (map (\<lambda>t. ?w ! nat t) ?masked)"
    by (rule F_embedding_in_range[OF ok])
  have zero: "zero_rows (map (\<lambda>t. ?w ! nat t) ?masked) (map (\<lambda>t. t < ?s \<or> ?e \<le> t) input)
              = map (vpe_local_row self) input"
  proof -
    have "length (?w ! 0) = nat (vpe_embedding_dim self)"
      using rows len ne by (metis nth_mem int_nat_eq nat_int of_nat_0_less_iff diff_gt_0_iff_gt zless_nat_conj zero_less_diff length_greater_0_conv nat_0_iff of_nat_less_0_iff)
    then show ?thesis
      by (auto simp: zero_rows_def map_map comp_def map2_same vpe_local_row_def map_replicate_const
          intro!: map_cong)
  qed
  have "VocabParallelEmbedding_output_parallel self input =
        bind_err (F_embedding ?masked ?w)
          (\<lambda>output_parallel. Inr (zero_rows output_parallel (map (\<lambda>t. t < ?s \<or> ?e \<le> t) input)))"
    unfolding VocabParallelEmbedding_output_parallel_def Let_def masked ..
  also have "\<dots> = Inr (map (vpe_local_row self) input)"
    by (simp only: emb bind_err_Inr zero)
  finally show ?thesis .
qed

lemma vpe_local_row_length:
  assumes "vpe_ok self"
  shows "length (vpe_local_row self t) = nat (vpe_embedding_dim self)"
proof (cases "vpe_vocab_start_index self \<le> t \<and> t < vpe_vocab_end_index self")
  case True
  then have "nat (t - vpe_vocab_start_index self) < length (vpe_weight self)"
    using assms by (auto simp: vpe_ok_def)
  then have "vpe_weight self ! nat (t - vpe_vocab_start_index self) \<in> set (vpe_weight self)"
    by (rule nth_mem)
  then have "int (length (vpe_weight self ! nat (t - vpe_vocab_start_index self))) = vpe_embedding_dim self"
    using assms by (simp add: vpe_ok_def)
  then show ?thesis using True by (simp add: vpe_local_row_def)
next
  case False
  then have "vpe_local_row self t = replicate (nat (vpe_embedding_dim self)) 0"
    unfolding vpe_local_row_def by (rule if_not_P)
  then show ?thesis by simp
qed

text \<open>
  Claim C3. In a group whose layers are as \<open>__init__\<close> leaves them, with \<open>n\<close> token ids
  on every rank: the local output of a rank, before the reduction, has for every token
  id inside the rank's range \<open>[vocab_start_index, vocab_end_index)\<close> the shard row
  \<open>weight[id - vocab_start_index]\<close> and for every other id the all-zero row; the
  returned output is the reduction of these local outputs, which is their element-wise
  sum across ranks, with one row of \<open>embedding_dim\<close> entries per token id.
\<close>

theorem vocab_parallel_embedding_forward:
  assumes "ranks \<noteq> []"
    and "\<forall>(self, input)\<in>set ranks. vpe_ok self \<and> vpe_embedding_dim self = D \<and> length input = n"
  shows "(\<forall>(self, input)\<in>set ranks.
            VocabParallelEmbedding_output_parallel self input =
            Inr (map (\<lambda>t. if vpe_vocab_start_index self \<le> t \<and> t < vpe_vocab_end_index self
                          then vpe_weight self ! nat (t - vpe_vocab_start_index self)
                          else replicate (nat D) 0) input))
       \<and> VocabParallelEmbedding_forward ranks =
           reduce_from_model_parallel_region
             (map (\<lambda>(self, input). map (vpe_local_row self) input) ranks)
       \<and> VocabParallelEmbedding_forward ranks =
           Inr (map (\<lambda>i. map (\<lambda>j. \<Sum>(self, input)\<leftarrow>ranks. vpe_local_row self (input ! i) ! j)
                            [0 ..< nat D])
                  [0 ..< n])"
proof -
  let ?locals = "map (\<lambda>(self, input). map (vpe_local_row self) input) ranks"
  have loc: "VocabParallelEmbedding_output_parallel self input = Inr (map (vpe_local_row self) input)"
    if "(self, input) \<in> set ranks" for self input
    using assms(2) that by (auto intro: vpe_output_parallel_rows)
  have part1: "VocabParallelEmbedding_output_parallel self input =
            Inr (map (\<lambda>t. if vpe_vocab_start_index self \<le> t \<and> t < vpe_vocab_end_index self
                          then vpe_weight self ! nat (t - vpe_vocab_start_index self)
                          else replicate (nat D) 0) input)"
    if "(self, input) \<in> set ranks" for self input
  proof -
    have "vpe_embedding_dim self = D" using assms(2) that by auto
    then have "vpe_local_row self = (\<lambda>t. if vpe_vocab_start_index self \<le> t \<and> t < vpe_vocab_end_index self
                          then vpe_weight self ! nat (t - vpe_vocab_start_index self)
                          else replicate (nat D) 0)"
      by (auto simp: vpe_local_row_def)
    then show ?thesis using loc[OF that] by simp
  qed
  have "those_err (map (\<lambda>(self, input). VocabParallelEmbedding_output_parallel self input) ranks)
        = Inr ?locals"
    by (rule those_err_Inr) (auto simp: loc)
  then have part2: "VocabParallelEmbedding_forward ranks = reduce_from_model_parallel_region ?locals"
    by (simp add: VocabParallelEmbedding_forward_def)
  have shape: "\<forall>u\<in>set ?locals. length u = n \<and> (\<forall>row\<in>set u. length row = nat D)"
    using assms(2) by (auto simp: vpe_local_row_length)
  have "reduce_from_model_parallel_region ?locals =
        Inr (map (\<lambda>i. map (\<lambda>j. sum_list (map (\<lambda>u. u ! i ! j) ?locals)) [0 ..< nat D]) [0 ..< n])"
    using assms(1) by (intro reduce_same_shape shape) simp
  also have "\<dots> = Inr (map (\<lambda>i. map (\<lambda>j. \<Sum>(self, input)\<leftarrow>ranks. vpe_local_row self (input ! i) ! j)
                            [0 ..< nat D]) [0 ..< n])"
  proof -
    have "sum_list (map (\<lambda>u. u ! i ! j) ?locals)
          = (\<Sum>(self, input)\<leftarrow>ranks. vpe_local_row self (input ! i) ! j)"
      if "i < n" for i j
    proof -
      have "map (\<lambda>u. u ! i ! j) ?locals
            = map (\<lambda>(self, input). vpe_local_row self (input ! i) ! j) ranks"
        using assms(2) that by (auto simp: map_map comp_def intro!: map_cong)
      then show ?thesis by (rule arg_cong[where f = sum_list])
    qed
    then show ?thesis by simp
  qed
  finally have part3: "reduce_from_model_parallel_region ?locals =
        Inr (map (\<lambda>i. map (\<lambda>j. \<Sum>(self, input)\<leftarrow>ranks. vpe_local_row self (input ! i) ! j)
                            [0 ..< nat D]) [0 ..< n])" .
  show ?thesis
    using part1 part2 part3 by (intro conjI ballI) auto
qed

theorem vocab_parallel_embedding_forward_witness:
  "VocabParallelEmbedding_output_parallel
     \<lparr>vpe_num_embeddings = 4, vpe_embedding_dim = 2, vpe_vocab_start_index = 0,
      vpe_vocab_end_index = 2, vpe_num_embeddings_per_partition = 2,
      vpe_weight = [[1, 2], [3, 4]]\<rparr> [1, 2, 4]
     = Inr [[3, 4], [0, 0], [0, 0]]
   \<and> VocabParallelEmbedding_forward
       [(\<lparr>vpe_num_embeddings = 4, vpe_embedding_dim = 2, vpe_vocab_start_index = 0,
          vpe_vocab_end_index = 2, vpe_num_embeddings_per_partition = 2,
          vpe_weight = [[1, 2], [3, 4]]\<rparr>, [1, 2, 4]),
        (\<lparr>vpe_num_embeddings = 4, vpe_embedding_dim = 2, vpe_vocab_start_index = 2,
          vpe_vocab_end_index = 4, vpe_num_embeddings_per_partition = 2,
          vpe_weight = [[5, 6], [7, 8]]\<rparr>, [1, 2, 4])]
     = Inr [[3, 4], [5, 6], [0, 0]]"
proof -
  let ?r0 = "\<lparr>vpe_num_embeddings = 4, vpe_embedding_dim = 2, vpe_vocab_start_index = 0,
      vpe_vocab_end_index = 2, vpe_num_embeddings_per_partition = 2,
      vpe_weight = [[1, 2], [3, 4]]\<rparr>"
  let ?r1 = "\<lparr>vpe_num_embeddings = 4, vpe_embedding_dim = 2, vpe_vocab_start_index = 2,
          vpe_vocab_end_index = 4, vpe_num_embeddings_per_partition = 2,
          vpe_weight = [[5, 6], [7, 8]]\<rparr>"
  let ?ranks = "[(?r0, [1, 2, 4]), (?r1, [1, 2, 4])]"
  have ne: "?ranks \<noteq> []" by simp
  have ok: "\<forall>(self, input)\<in>set ?ranks. vpe_ok self \<and> vpe_embedding_dim self = 2 \<and> length input = 3"
    by (simp add: vpe_ok_def)
  note t = vocab_parallel_embedding_forward[OF ne ok]
  have up: "[0 ..< 3] = [0, 1, 2]" "[0 ..< 2] = [0, 1]"
    by (simp_all add: upt_rec)
  from t have a: "VocabParallelEmbedding_output_parallel ?r0 [1, 2, 4] = Inr [[3, 4], [0, 0], [0, 0]]"
    by (simp add: numeral_2_eq_2)
  from t[THEN conjunct2, THEN conjunct2]
  have b: "VocabParallelEmbedding_forward ?ranks = Inr [[3, 4], [5, 6], [0, 0]]"
    by (simp add: up vpe_local_row_def)
  from a b show ?thesis by (rule conjI)
qed

section \<open>The linear layers\<close>

lemma dot_append:
  assumes "length a = length c"
  shows "dot (a @ b) (c @ d) = dot a c + dot b d"
  using assms by (simp add: dot_def)

lemma upt_Suc_shift: "[0 ..< Suc n] = 0 # map Suc [0 ..< n]"
  by (simp add: upt_conv_Cons map_Suc_upt del: upt_Suc)

lemma dot_concat:
  assumes "length us = length vs"
    and "\<forall>r<length us. length (us ! r) = length (vs ! r)"
  shows "dot (concat us) (concat vs) = (\<Sum>r\<leftarrow>[0 ..< length us]. dot (us ! r) (vs ! r))"
  using assms
proof (induction us vs rule: list_induct2)
  case Nil
  then show ?case by (simp add: dot_def)
next
  case (Cons u us v vs)
  have uv: "length u = length v" using Cons.prems by auto
  have rest: "\<forall>r<length us. length (us ! r) = length (vs ! r)"
    using Cons.prems by auto
  have "(\<Sum>r\<leftarrow>[0 ..< length (u # us)]. dot ((u # us) ! r) ((v # vs) ! r))
        = dot u v + (\<Sum>r\<leftarrow>[0 ..< length us]. dot (us ! r) (vs ! r))"
    by (simp add: upt_Suc_shift comp_def del: upt_Suc)
  then show ?case
    using Cons.IH[OF rest] by (simp add: dot_append[OF uv])
qed

lemma dot_sum:
  assumes "length u = length v"
  shows "dot u v = (\<Sum>k\<leftarrow>[0 ..< length u]. u ! k * v ! k)"
  using assms
proof (induction u v rule: list_induct2)
  case Nil
  then show ?case by (simp add: dot_def)
next
  case (Cons a u b v)
  have "(\<Sum>k\<leftarrow>[0 ..< length (a # u)]. (a # u) ! k * (b # v) ! k)
        = a * b + (\<Sum>k\<leftarrow>[0 ..< length u]. u ! k * v ! k)"
    by (simp add: upt_Suc_shift comp_def del: upt_Suc)
  then show ?case using Cons.IH by (simp add: dot_def)
qed

lemma map_upt_nth: "map (\<lambda>j. f (xs ! j)) [0 ..< length xs] = map f xs"
  by (rule nth_equalityI) auto

lemma linear_row_dense:
  assumes "\<forall>w\<in>set W. length w = length xi"
    and "case b of None \<Rightarrow> True | Some bv \<Rightarrow> length bv = length W"
  shows "linear_row xi W b
         = map (\<lambda>j. (\<Sum>k\<leftarrow>[0 ..< length xi]. xi ! k * W ! j ! k)
                         + (case b of None \<Rightarrow> 0 | Some bv \<Rightarrow> bv ! j)) [0 ..< length W]"
proof -
  have d: "dot xi (W ! j) = (\<Sum>k\<leftarrow>[0 ..< length xi]. xi ! k * W ! j ! k)" if "j < length W" for j
    using assms(1) that by (intro dot_sum) auto
  show ?thesis
  proof (cases b)
    case None
    then show ?thesis by (auto intro!: nth_equalityI simp: d linear_row_def)
  next
    case (Some bv)
    then have "length bv = length W" using assms(2) by simp
    then show ?thesis using Some by (auto intro!: nth_equalityI simp: d linear_row_def)
  qed
qed

lemma dense_linear_rows:
  assumes "\<forall>xi\<in>set x. \<forall>w\<in>set W. length xi = length w"
    and "case b of None \<Rightarrow> True | Some bv \<Rightarrow> length bv = length W"
  shows "dense_linear x W b = map (\<lambda>xi. linear_row xi W b) x"
proof -
  have "linear_row xi W b
         = map (\<lambda>j. (\<Sum>k\<leftarrow>[0 ..< length xi]. xi ! k * W ! j ! k)
                         + (case b of None \<Rightarrow> 0 | Some bv \<Rightarrow> bv ! j)) [0 ..< length W]"
    if "xi \<in> set x" for xi
    using assms that by (intro linear_row_dense) auto
  then show ?thesis
    unfolding dense_linear_def by (simp cong: map_cong)
qed

lemma F_linear_dense:
  assumes "\<forall>xi\<in>set x. length xi = m"
    and "\<forall>w\<in>set W. length w = m"
    and "case b of None \<Rightarrow> True | Some bv \<Rightarrow> length bv = length W"
  shows "F_linear x W b = Inr (dense_linear x W b)"
proof -
  have sh: "\<forall>xi\<in>set x. \<forall>w\<in>set W. length xi = length w"
    using assms(1,2) by simp
  then have "F_linear x W b = Inr (map (\<lambda>xi. linear_row xi W b) x)"
    using assms(3) by (simp add: F_linear_def)
  then show ?thesis
    by (simp only: dense_linear_rows[OF sh assms(3)])
qed

lemma concat_slices:
  assumes "length row = p * k"
  shows "concat (map (\<lambda>r. take k (drop (r * k) row)) [0 ..< p]) = row"
  using assms
proof (induction p arbitrary: row)
  case 0
  then show ?case by simp
next
  case (Suc p)
  have "length (drop k row) = p * k" using Suc.prems by simp
  from Suc.IH[OF this]
  have "concat (map (\<lambda>r. take k (drop (r * k + k) row)) [0 ..< p]) = drop k row"
    by (simp add: ac_simps)
  then show ?case
    by (simp add: upt_Suc_shift comp_def ac_simps del: upt_Suc)
qed


lemma dense_linear_dot:
  assumes "\<forall>xi\<in>set x. \<forall>w\<in>set W. length xi = length w"
  shows "dense_linear x W None = map (\<lambda>xi. map (dot xi) W) x"
  using dense_linear_rows[OF assms, of None] by (simp add: linear_row_def)

lemma mat_eqI:
  assumes "length A = n" and "length B = n"
    and "\<And>i. i < n \<Longrightarrow> length (A ! i) = d \<and> length (B ! i) = d"
    and "\<And>i j. i < n \<Longrightarrow> j < d \<Longrightarrow> A ! i ! j = B ! i ! j"
  shows "A = B"
proof (rule nth_equalityI)
  show "length A = length B" using assms(1,2) by simp
next
  fix i assume "i < length A"
  then have i: "i < n" using assms(1) by simp
  show "A ! i = B ! i"
    using assms(3)[OF i] assms(4)[OF i] by (intro nth_equalityI) auto
qed

lemma cat_dim1_rows:
  assumes "ts \<noteq> []" and "\<forall>t\<in>set ts. length t = n"
  shows "cat_dim1 ts = map (\<lambda>i. concat (map (\<lambda>u. u ! i) ts)) [0 ..< n]"
  using assms by (cases ts) (auto simp: cat_dim1_def)

lemma length_concat_const:
  assumes "\<forall>u\<in>set us. length u = k"
  shows "length (concat us) = length us * k"
  using assms by (induction us) auto

lemma reduce_partial_products:
  assumes "xs \<noteq> []" and "length xs = length Ws"
    and "\<forall>x\<in>set xs. length x = n \<and> (\<forall>row\<in>set x. length row = k)"
    and "\<forall>W\<in>set Ws. length W = out \<and> (\<forall>w\<in>set W. length w = k)"
  shows "reduce_from_model_parallel_region
           (map (\<lambda>r. dense_linear (xs ! r) (Ws ! r) None) [0 ..< length xs])
         = Inr (dense_linear (cat_dim1 xs) (cat_dim1 Ws) None)"
proof -
  let ?p = "length xs"
  let ?ts = "map (\<lambda>r. dense_linear (xs ! r) (Ws ! r) None) [0 ..< ?p]"
  have Wne: "Ws \<noteq> []" using assms(1,2) by auto
  have xr: "length (xs ! r) = n" "\<forall>row\<in>set (xs ! r). length row = k" if "r < ?p" for r
    using assms(3) that by auto
  have Wr: "length (Ws ! r) = out" "\<forall>w\<in>set (Ws ! r). length w = k" if "r < ?p" for r
    using assms(2,4) that by auto
  have loc: "dense_linear (xs ! r) (Ws ! r) None = map (\<lambda>xi. map (dot xi) (Ws ! r)) (xs ! r)"
    if "r < ?p" for r
    using xr[OF that] Wr[OF that] by (intro dense_linear_dot) auto
  have shape: "\<forall>u\<in>set ?ts. length u = n \<and> (\<forall>row\<in>set u. length row = out)"
    using xr Wr by (auto simp: loc)
  have red: "reduce_from_model_parallel_region ?ts =
        Inr (map (\<lambda>i. map (\<lambda>j. sum_list (map (\<lambda>u. u ! i ! j) ?ts)) [0 ..< out]) [0 ..< n])"
    using assms(1) by (intro reduce_same_shape shape) simp
  have cx: "cat_dim1 xs = map (\<lambda>i. concat (map (\<lambda>u. u ! i) xs)) [0 ..< n]"
    using assms(1,3) by (intro cat_dim1_rows) auto
  have cw: "cat_dim1 Ws = map (\<lambda>j. concat (map (\<lambda>u. u ! j) Ws)) [0 ..< out]"
    using Wne assms(4) by (intro cat_dim1_rows) auto
  have lx: "length (concat (map (\<lambda>u. u ! i) xs)) = ?p * k" if "i < n" for i
  proof -
    have "\<forall>u\<in>set (map (\<lambda>u. u ! i) xs). length u = k"
      using assms(3) that by auto
    from length_concat_const[OF this] show ?thesis by simp
  qed
  have lw: "length (concat (map (\<lambda>u. u ! j) Ws)) = ?p * k" if "j < out" for j
  proof -
    have "\<forall>u\<in>set (map (\<lambda>u. u ! j) Ws). length u = k"
      using assms(4) that by auto
    from length_concat_const[OF this] show ?thesis using assms(2) by simp
  qed
  have rhs: "dense_linear (cat_dim1 xs) (cat_dim1 Ws) None
             = map (\<lambda>xi. map (dot xi) (cat_dim1 Ws)) (cat_dim1 xs)"
    by (intro dense_linear_dot) (auto simp: cx cw lx lw)
  have entry: "sum_list (map (\<lambda>u. u ! i ! j) ?ts)
               = dot (concat (map (\<lambda>u. u ! i) xs)) (concat (map (\<lambda>u. u ! j) Ws))"
    if "i < n" and "j < out" for i j
  proof -
    have a: "map (\<lambda>u. u ! i ! j) ?ts = map (\<lambda>r. dot (xs ! r ! i) (Ws ! r ! j)) [0 ..< ?p]"
      using that xr Wr by (auto simp: loc)
    have "dot (concat (map (\<lambda>u. u ! i) xs)) (concat (map (\<lambda>u. u ! j) Ws))
          = (\<Sum>r\<leftarrow>[0 ..< length (map (\<lambda>u. u ! i) xs)].
               dot (map (\<lambda>u. u ! i) xs ! r) (map (\<lambda>u. u ! j) Ws ! r))"
      using that xr Wr assms(2) by (intro dot_concat) auto
    then have b: "dot (concat (map (\<lambda>u. u ! i) xs)) (concat (map (\<lambda>u. u ! j) Ws))
          = sum_list (map (\<lambda>r. dot (map (\<lambda>u. u ! i) xs ! r) (map (\<lambda>u. u ! j) Ws ! r)) [0 ..< ?p])"
      by (simp only: length_map)
    have c: "map (\<lambda>r. dot (map (\<lambda>u. u ! i) xs ! r) (map (\<lambda>u. u ! j) Ws ! r)) [0 ..< ?p]
          = map (\<lambda>r. dot (xs ! r ! i) (Ws ! r ! j)) [0 ..< ?p]"
      using assms(2) by auto
    show ?thesis by (simp only: a b c)
  qed
  have "map (\<lambda>i. map (\<lambda>j. sum_list (map (\<lambda>u. u ! i ! j) ?ts)) [0 ..< out]) [0 ..< n]
        = map (\<lambda>xi. map (dot xi) (cat_dim1 Ws)) (cat_dim1 xs)"
  proof (rule mat_eqI[where n = n and d = out])
    fix i j assume "i < n" and "j < out"
    then show "map (\<lambda>i. map (\<lambda>j. sum_list (map (\<lambda>u. u ! i ! j) ?ts)) [0 ..< out]) [0 ..< n] ! i ! j
          = map (\<lambda>xi. map (dot xi) (cat_dim1 Ws)) (cat_dim1 xs) ! i ! j"
      using entry[of i j] by (simp add: cx cw del: map_map)
  qed (simp_all add: cx cw)
  then show ?thesis by (simp only: red rhs)
qed

lemma gather_scatter:
  assumes "0 < p" and "\<forall>row\<in>set x. length row = p * k"
  shows "cat_dim1 (map (\<lambda>r. scatter_to_model_parallel_region r p x) [0 ..< p]) = x"
proof -
  have sc: "scatter_to_model_parallel_region r p x = map (\<lambda>row. take k (drop (r * k) row)) x" for r
    using assms by (simp add: scatter_to_model_parallel_region_def cong: map_cong)
  have "cat_dim1 (map (\<lambda>r. scatter_to_model_parallel_region r p x) [0 ..< p])
        = map (\<lambda>i. concat (map (\<lambda>u. u ! i) (map (\<lambda>r. scatter_to_model_parallel_region r p x) [0 ..< p])))
            [0 ..< length x]"
    using assms(1) by (intro cat_dim1_rows) (auto simp: sc)
  also have "\<dots> = map (\<lambda>i. x ! i) [0 ..< length x]"
  proof (rule map_cong[OF refl])
    fix i assume "i \<in> set [0 ..< length x]"
    then have i: "i < length x" by simp
    then have "length (x ! i) = p * k" using assms(2) by simp
    from concat_slices[OF this] show "concat (map (\<lambda>u. u ! i) (map (\<lambda>r. scatter_to_model_parallel_region r p x) [0 ..< p])) = x ! i"
      using i by (simp add: sc comp_def)
  qed
  also have "\<dots> = x" by (rule map_nth)
  finally show ?thesis .
qed


lemma add_bias_dense:
  assumes "length b = length W"
  shows "add_bias (dense_linear x W None) b = Inr (dense_linear x W (Some b))"
proof -
  have "\<forall>row\<in>set (dense_linear x W None). length row = length b"
    using assms by (auto simp: dense_linear_def)
  then have "add_bias (dense_linear x W None) b
             = Inr (map (\<lambda>row. map2 (+) row b) (dense_linear x W None))"
    by (simp add: add_bias_def)
  also have "map (\<lambda>row. map2 (+) row b) (dense_linear x W None) = dense_linear x W (Some b)"
    using assms by (auto simp: dense_linear_def intro!: nth_equalityI)
  finally show ?thesis .
qed

lemma scatter_shape:
  assumes "0 < p" and "r < p" and "\<forall>row\<in>set x. length row = p * k"
  shows "length (scatter_to_model_parallel_region r p x) = length x
         \<and> (\<forall>row\<in>set (scatter_to_model_parallel_region r p x). length row = k)"
proof -
  have "k \<le> p * k - r * k"
  proof -
    have "Suc r \<le> p" using assms(2) by simp
    then have "Suc r * k \<le> p * k" by (rule mult_le_mono1)
    then show ?thesis by simp
  qed
  then show ?thesis
    using assms by (auto simp: scatter_to_model_parallel_region_def)
qed

text \<open>
  Claim C4. On every rank the local partial product is \<open>x_shard @ weight_shard^T\<close> with
  no bias term (the shard of the input is the rank's own input when \<open>input_is_parallel\<close>
  is set, and its contiguous slice of the full input otherwise); the partial products
  are summed across ranks and the bias of the rank, when it has one, is added once to
  the sum, so that the result is the non-partitioned \<open>x @ W^T + b\<close>, where \<open>x\<close> is the
  full input and \<open>W\<close> is the whole weight whose column blocks are the shards.
\<close>

theorem row_parallel_linear_forward:
  assumes "rank < length ranks"
    and "\<forall>(self, input)\<in>set ranks.
           length (rpl_weight self) = out \<and> (\<forall>w\<in>set (rpl_weight self). length w = k)"
    and "case rpl_bias (fst (ranks ! rank)) of None \<Rightarrow> True | Some b \<Rightarrow> length b = out"
    and "(\<forall>(self, input)\<in>set ranks.
            rpl_input_is_parallel self \<and> length input = n \<and> (\<forall>row\<in>set input. length row = k))
         \<and> x = cat_dim1 (map snd ranks)
         \<or> (\<forall>(self, input)\<in>set ranks. \<not> rpl_input_is_parallel self \<and> input = x)
         \<and> (\<forall>row\<in>set x. length row = length ranks * k)"
  shows "(\<forall>r<length ranks.
            RowParallelLinear_output_parallel r (length ranks) (fst (ranks ! r)) (snd (ranks ! r)) =
            Inr (dense_linear
                   (if rpl_input_is_parallel (fst (ranks ! r)) then snd (ranks ! r)
                    else scatter_to_model_parallel_region r (length ranks) x)
                   (rpl_weight (fst (ranks ! r))) None))
       \<and> RowParallelLinear_forward ranks rank =
           Inr (dense_linear x (cat_dim1 (map (\<lambda>(self, input). rpl_weight self) ranks))
                  (rpl_bias (fst (ranks ! rank))))"
proof -
  let ?p = "length ranks"
  let ?W = "\<lambda>r. rpl_weight (fst (ranks ! r))"
  let ?shard = "\<lambda>r. if rpl_input_is_parallel (fst (ranks ! r)) then snd (ranks ! r)
                    else scatter_to_model_parallel_region r ?p x"
  let ?Ws = "map (\<lambda>(self, input). rpl_weight self) ranks"
  let ?xs = "map ?shard [0 ..< ?p]"
  have p: "0 < ?p" using assms(1) by auto
  have mem: "ranks ! r \<in> set ranks" if "r < ?p" for r using that by simp
  have Wr: "length (?W r) = out" "\<forall>w\<in>set (?W r). length w = k" if "r < ?p" for r
    using assms(2) mem[OF that] by (auto simp: case_prod_beta)
  obtain m where shard: "\<And>r. r < ?p \<Longrightarrow> length (?shard r) = m \<and> (\<forall>row\<in>set (?shard r). length row = k)"
    and inp: "\<And>r. r < ?p \<Longrightarrow> (if rpl_input_is_parallel (fst (ranks ! r)) then snd (ranks ! r)
                  else scatter_to_model_parallel_region r ?p (snd (ranks ! r))) = ?shard r"
    and full: "cat_dim1 ?xs = x"
    using assms(4)
  proof (elim disjE conjE)
    assume par: "\<forall>(self, input)\<in>set ranks.
            rpl_input_is_parallel self \<and> length input = n \<and> (\<forall>row\<in>set input. length row = k)"
      and x: "x = cat_dim1 (map snd ranks)"
    have pr: "rpl_input_is_parallel (fst (ranks ! r))" "length (snd (ranks ! r)) = n"
      "\<forall>row\<in>set (snd (ranks ! r)). length row = k" if "r < ?p" for r
      using par mem[OF that] by (auto simp: case_prod_beta)
    have "?xs = map snd ranks"
      using pr by (auto intro!: nth_equalityI)
    then show ?thesis
      using pr x by (intro that[of n]) auto
  next
    assume np: "\<forall>(self, input)\<in>set ranks. \<not> rpl_input_is_parallel self \<and> input = x"
      and x: "\<forall>row\<in>set x. length row = ?p * k"
    have pr: "\<not> rpl_input_is_parallel (fst (ranks ! r))" "snd (ranks ! r) = x" if "r < ?p" for r
      using np mem[OF that] by (auto simp: case_prod_beta)
    have "?xs = map (\<lambda>r. scatter_to_model_parallel_region r ?p x) [0 ..< ?p]"
      using pr by auto
    then have "cat_dim1 ?xs = x"
      using gather_scatter[OF p x] by (simp only:)
    then show ?thesis
      using pr scatter_shape[OF p _ x] by (intro that[of "length x"]) auto
  qed
  have loc: "RowParallelLinear_output_parallel r ?p (fst (ranks ! r)) (snd (ranks ! r))
             = Inr (dense_linear (?shard r) (?W r) None)" if "r < ?p" for r
  proof -
    have "RowParallelLinear_output_parallel r ?p (fst (ranks ! r)) (snd (ranks ! r))
          = F_linear (?shard r) (?W r) None"
      unfolding RowParallelLinear_output_parallel_def Let_def inp[OF that] ..
    also have "\<dots> = Inr (dense_linear (?shard r) (?W r) None)"
      using shard[OF that] Wr[OF that] by (intro F_linear_dense[where m = k]) auto
    finally show ?thesis .
  qed
  have "those_err (map (\<lambda>r. case ranks ! r of (s, i) \<Rightarrow>
                              RowParallelLinear_output_parallel r ?p s i) [0 ..< ?p])
        = Inr (map (\<lambda>r. dense_linear (?shard r) (?W r) None) [0 ..< ?p])"
    by (rule those_err_Inr) (auto simp: case_prod_beta loc)
  moreover have "map (\<lambda>r. dense_linear (?shard r) (?W r) None) [0 ..< ?p]
        = map (\<lambda>r. dense_linear (?xs ! r) (?Ws ! r) None) [0 ..< length ?xs]"
    by (auto simp: case_prod_beta)
  moreover have "reduce_from_model_parallel_region
          (map (\<lambda>r. dense_linear (?xs ! r) (?Ws ! r) None) [0 ..< length ?xs])
        = Inr (dense_linear (cat_dim1 ?xs) (cat_dim1 ?Ws) None)"
  proof (rule reduce_partial_products[where n = m and k = k and out = out])
    show "?xs \<noteq> []" using p by simp
    show "length ?xs = length ?Ws" by simp
    show "\<forall>x\<in>set ?xs. length x = m \<and> (\<forall>row\<in>set x. length row = k)"
    proof
      fix y assume "y \<in> set ?xs"
      then obtain r where r: "r < ?p" and y: "y = ?shard r" by auto
      from shard[OF r] show "length y = m \<and> (\<forall>row\<in>set y. length row = k)"
        unfolding y .
    qed
    show "\<forall>W\<in>set ?Ws. length W = out \<and> (\<forall>w\<in>set W. length w = k)"
      using assms(2) by auto
  qed
  ultimately have red: "RowParallelLinear_forward ranks rank =
      (case rpl_bias (fst (ranks ! rank)) of
         Some b \<Rightarrow> add_bias (dense_linear x (cat_dim1 ?Ws) None) b
       | None \<Rightarrow> Inr (dense_linear x (cat_dim1 ?Ws) None))"
    by (simp add: RowParallelLinear_forward_def full)
  have lenW: "length (cat_dim1 ?Ws) = out"
  proof -
    have "cat_dim1 ?Ws = map (\<lambda>j. concat (map (\<lambda>u. u ! j) ?Ws)) [0 ..< out]"
      using p assms(2) by (intro cat_dim1_rows) auto
    then show ?thesis by simp
  qed
  have "RowParallelLinear_forward ranks rank =
           Inr (dense_linear x (cat_dim1 ?Ws) (rpl_bias (fst (ranks ! rank))))"
  proof (cases "rpl_bias (fst (ranks ! rank))")
    case None
    then show ?thesis by (simp add: red)
  next
    case (Some b)
    then have "length b = length (cat_dim1 ?Ws)" using assms(3) lenW by simp
    from add_bias_dense[OF this] show ?thesis by (simp add: red Some)
  qed
  then show ?thesis using loc by simp
qed

theorem row_parallel_linear_forward_witness:
  "RowParallelLinear_output_parallel 1 2
     \<lparr>rpl_input_size = 2, rpl_output_size = 1, rpl_input_is_parallel = False,
      rpl_input_size_per_partition = 1, rpl_weight = [[3]], rpl_bias = Some [10],
      rpl_master_weight = None\<rparr> [[1, 1]]
     = Inr [[3]]
   \<and> RowParallelLinear_forward
       [(\<lparr>rpl_input_size = 2, rpl_output_size = 1, rpl_input_is_parallel = False,
          rpl_input_size_per_partition = 1, rpl_weight = [[2]], rpl_bias = Some [10],
          rpl_master_weight = None\<rparr>, [[1, 1]]),
        (\<lparr>rpl_input_size = 2, rpl_output_size = 1, rpl_input_is_parallel = False,
          rpl_input_size_per_partition = 1, rpl_weight = [[3]], rpl_bias = Some [10],
          rpl_master_weight = None\<rparr>, [[1, 1]])] 0
     = Inr [[15]]"
proof -
  let ?l0 = "\<lparr>rpl_input_size = 2, rpl_output_size = 1, rpl_input_is_parallel = False,
          rpl_input_size_per_partition = 1, rpl_weight = [[2]], rpl_bias = Some [10],
          rpl_master_weight = None\<rparr>"
  let ?l1 = "\<lparr>rpl_input_size = 2, rpl_output_size = 1, rpl_input_is_parallel = False,
          rpl_input_size_per_partition = 1, rpl_weight = [[3]], rpl_bias = Some [10],
          rpl_master_weight = None\<rparr>"
  let ?x = "[[1, 1]] :: mat"
  let ?ranks = "[(?l0, ?x), (?l1, ?x)]"
  have r: "0 < length ?ranks" by simp
  have w: "\<forall>(self, input)\<in>set ?ranks.
           length (rpl_weight self) = 1 \<and> (\<forall>w\<in>set (rpl_weight self). length w = 1)"
    by simp
  have b: "case rpl_bias (fst (?ranks ! 0)) of None \<Rightarrow> True | Some b \<Rightarrow> length b = 1"
    by simp
  have i: "(\<forall>(self, input)\<in>set ?ranks.
            rpl_input_is_parallel self \<and> length input = 1 \<and> (\<forall>row\<in>set input. length row = 1))
         \<and> ?x = cat_dim1 (map snd ?ranks)
         \<or> (\<forall>(self, input)\<in>set ?ranks. \<not> rpl_input_is_parallel self \<and> input = ?x)
         \<and> (\<forall>row\<in>set ?x. length row = length ?ranks * 1)"
    by simp
  note t = row_parallel_linear_forward[OF r w b i]
  have up: "[0 ..< 2] = [0, 1]" by (simp add: upt_rec)
  from t[THEN conjunct1, rule_format, of 1]
  have a: "RowParallelLinear_output_parallel 1 2 ?l1 ?x = Inr [[3]]"
    by (simp add: dense_linear_def scatter_to_model_parallel_region_def numeral_2_eq_2)
  from t[THEN conjunct2]
  have c: "RowParallelLinear_forward ?ranks 0 = Inr [[15]]"
    by (simp add: dense_linear_def cat_dim1_def up)
  from a c show ?thesis by (rule conjI)
qed

lemma linear_row_cat_some:
  assumes "\<forall>(A, a)\<in>set shards. \<exists>av. a = Some av \<and> length av = length A"
  shows "concat (map (\<lambda>(A, a). linear_row xi A a) shards)
         = map2 (+) (map (dot xi) (concat (map fst shards)))
             (concat (map (\<lambda>b. case b of None \<Rightarrow> [] | Some v \<Rightarrow> v) (map snd shards)))"
  using assms
proof (induction shards)
  case Nil
  then show ?case by simp
next
  case (Cons s shards)
  obtain A av where s: "s = (A, Some av)" and len: "length av = length A"
    using Cons.prems by (cases s) auto
  have "\<forall>(A, a)\<in>set shards. \<exists>av. a = Some av \<and> length av = length A"
    using Cons.prems by simp
  from Cons.IH[OF this] show ?case
    using len by (simp add: s linear_row_def)
qed

lemma linear_row_cat:
  assumes "\<forall>(A, a)\<in>set shards. case a of None \<Rightarrow> True | Some av \<Rightarrow> length av = length A"
    and "(\<forall>(A, a)\<in>set shards. a = None) \<or> (\<forall>(A, a)\<in>set shards. a \<noteq> None)"
    and "shards \<noteq> []"
  shows "concat (map (\<lambda>(A, a). linear_row xi A a) shards)
         = linear_row xi (cat_dim0 (map fst shards)) (cat_bias (map snd shards))"
  using assms(2)
proof
  assume none: "\<forall>(A, a)\<in>set shards. a = None"
  then have a: "cat_bias (map snd shards) = None"
    by (auto simp: cat_bias_def)
  have b: "map (\<lambda>(A, a). linear_row xi A a) shards = map (map (dot xi)) (map fst shards)"
    using none by (auto simp: linear_row_def)
  have c: "linear_row xi (cat_dim0 (map fst shards)) None
           = concat (map (map (dot xi)) (map fst shards))"
    by (simp add: linear_row_def cat_dim0_def map_concat)
  show ?thesis by (simp only: a b c)
next
  assume some: "\<forall>(A, a)\<in>set shards. a \<noteq> None"
  have ex: "\<forall>(A, a)\<in>set shards. \<exists>av. a = Some av \<and> length av = length A"
  proof (intro ballI, clarify)
    fix A a assume m: "(A, a) \<in> set shards"
    then obtain av where a: "a = Some av" using some by fastforce
    then have "length av = length A" using assms(1) m by fastforce
    then show "\<exists>av. a = Some av \<and> length av = length A" using a by simp
  qed
  have "\<not> (\<forall>b\<in>set (map snd shards). b = None)"
    using some assms(3) by (cases shards) auto
  then have a: "cat_bias (map snd shards)
        = Some (concat (map (\<lambda>b. case b of None \<Rightarrow> [] | Some v \<Rightarrow> v) (map snd shards)))"
    unfolding cat_bias_def by (rule if_not_P)
  show ?thesis
    by (simp only: a linear_row_cat_some[OF ex]) (simp add: linear_row_def cat_dim0_def)
qed


lemma cat_bias_length:
  assumes "\<forall>(A, a)\<in>set shards. case a of None \<Rightarrow> True | Some av \<Rightarrow> length av = length A"
    and "(\<forall>(A, a)\<in>set shards. a = None) \<or> (\<forall>(A, a)\<in>set shards. a \<noteq> None)"
  shows "case cat_bias (map snd shards) of None \<Rightarrow> True
         | Some bv \<Rightarrow> length bv = length (cat_dim0 (map fst shards))"
  using assms(2)
proof
  assume "\<forall>(A, a)\<in>set shards. a = None"
  then have "cat_bias (map snd shards) = None" by (auto simp: cat_bias_def)
  then show ?thesis by simp
next
  assume some: "\<forall>(A, a)\<in>set shards. a \<noteq> None"
  have "length (concat (map (\<lambda>b. case b of None \<Rightarrow> [] | Some v \<Rightarrow> v) (map snd shards)))
        = length (concat (map fst shards))"
    using assms(1) some
  proof (induction shards)
    case Nil
    then show ?case by simp
  next
    case (Cons s shards)
    obtain A av where s: "s = (A, Some av)" and len: "length av = length A"
      using Cons.prems by (cases s) auto
    have "length (concat (map (\<lambda>b. case b of None \<Rightarrow> [] | Some v \<Rightarrow> v) (map snd shards)))
        = length (concat (map fst shards))"
      using Cons.prems by (intro Cons.IH) auto
    then show ?case using len by (simp add: s)
  qed
  then show ?thesis
    by (simp add: cat_bias_def cat_dim0_def)
qed

lemma column_outputs_cat:
  assumes "shards \<noteq> []"
    and "\<forall>(A, a)\<in>set shards. (\<forall>w\<in>set A. length w = m)
           \<and> (case a of None \<Rightarrow> True | Some av \<Rightarrow> length av = length A)"
    and "(\<forall>(A, a)\<in>set shards. a = None) \<or> (\<forall>(A, a)\<in>set shards. a \<noteq> None)"
    and "\<forall>row\<in>set x. length row = m"
  shows "cat_dim1 (map (\<lambda>(A, a). dense_linear x A a) shards)
         = dense_linear x (cat_dim0 (map fst shards)) (cat_bias (map snd shards))"
proof -
  have bl: "\<forall>(A, a)\<in>set shards. case a of None \<Rightarrow> True | Some av \<Rightarrow> length av = length A"
    using assms(2) by auto
  have loc: "dense_linear x A a = map (\<lambda>xi. linear_row xi A a) x" if "(A, a) \<in> set shards" for A a
    using assms(2,4) that by (intro dense_linear_rows) auto
  have "cat_dim1 (map (\<lambda>(A, a). dense_linear x A a) shards)
        = map (\<lambda>i. concat (map (\<lambda>u. u ! i) (map (\<lambda>(A, a). dense_linear x A a) shards)))
            [0 ..< length x]"
    using assms(1) by (intro cat_dim1_rows) (auto simp: dense_linear_def)
  also have "\<dots> = map (\<lambda>i. linear_row (x ! i) (cat_dim0 (map fst shards)) (cat_bias (map snd shards)))
                     [0 ..< length x]"
  proof (rule map_cong[OF refl])
    fix i assume "i \<in> set [0 ..< length x]"
    then have i: "i < length x" by simp
    have "map (\<lambda>u. u ! i) (map (\<lambda>(A, a). dense_linear x A a) shards)
          = map (\<lambda>(A, a). linear_row (x ! i) A a) shards"
      using i by (auto simp: loc)
    then show "concat (map (\<lambda>u. u ! i) (map (\<lambda>(A, a). dense_linear x A a) shards))
          = linear_row (x ! i) (cat_dim0 (map fst shards)) (cat_bias (map snd shards))"
      by (simp only: linear_row_cat[OF bl assms(3) assms(1)])
  qed
  also have "\<dots> = map (\<lambda>xi. linear_row xi (cat_dim0 (map fst shards)) (cat_bias (map snd shards))) x"
    by (rule map_upt_nth)
  also have "\<dots> = dense_linear x (cat_dim0 (map fst shards)) (cat_bias (map snd shards))"
  proof (rule dense_linear_rows[symmetric])
    show "\<forall>xi\<in>set x. \<forall>w\<in>set (cat_dim0 (map fst shards)). length xi = length w"
      using assms(2,4) by (fastforce simp: cat_dim0_def)
    show "case cat_bias (map snd shards) of None \<Rightarrow> True
          | Some bv \<Rightarrow> length bv = length (cat_dim0 (map fst shards))"
      by (rule cat_bias_length[OF bl assms(3)])
  qed
  finally show ?thesis .
qed


text \<open>
  Claim C5. A column-partitioned layer with \<open>gather_output=False\<close>, given the same input
  on every rank, feeding a row-partitioned layer with \<open>input_is_parallel=True\<close>, over
  any number of ranks with shards of one size \<open>k\<close>, returns what the two non-partitioned
  dense layers return: the first with the whole weight and bias of the column layer
  (the shards concatenated along dimension 0), the second with the whole weight of the
  row layer (the shards concatenated along dimension 1) and its bias.
\<close>

theorem column_then_row_dense:
  assumes "rank < length col_ranks" and "length row_layers = length col_ranks"
    and "\<forall>(self, input)\<in>set col_ranks.
           \<not> cpl_gather_output self \<and> input = x
           \<and> length (cpl_weight self) = k \<and> (\<forall>w\<in>set (cpl_weight self). length w = m)
           \<and> (case cpl_bias self of None \<Rightarrow> True | Some a \<Rightarrow> length a = k)"
    and "(\<forall>(self, input)\<in>set col_ranks. cpl_bias self = None)
         \<or> (\<forall>(self, input)\<in>set col_ranks. cpl_bias self \<noteq> None)"
    and "\<forall>row\<in>set x. length row = m"
    and "\<forall>self\<in>set row_layers.
           rpl_input_is_parallel self
           \<and> length (rpl_weight self) = out \<and> (\<forall>w\<in>set (rpl_weight self). length w = k)"
    and "case rpl_bias (row_layers ! rank) of None \<Rightarrow> True | Some b \<Rightarrow> length b = out"
  shows "column_then_row col_ranks row_layers rank =
         Inr (dense_linear
                (dense_linear x
                   (cat_dim0 (map (\<lambda>(self, input). cpl_weight self) col_ranks))
                   (cat_bias (map (\<lambda>(self, input). cpl_bias self) col_ranks)))
                (cat_dim1 (map rpl_weight row_layers))
                (rpl_bias (row_layers ! rank)))"
proof -
  let ?p = "length col_ranks"
  let ?shards = "map (\<lambda>(self, input). (cpl_weight self, cpl_bias self)) col_ranks"
  let ?hidden = "map (\<lambda>(A, a). dense_linear x A a) ?shards"
  let ?ranks = "zip row_layers ?hidden"
  have p: "col_ranks \<noteq> []" using assms(1) by auto
  have mem: "col_ranks ! r \<in> set col_ranks" if "r < ?p" for r using that by simp
  have colr: "\<not> cpl_gather_output (fst (col_ranks ! r))" "snd (col_ranks ! r) = x"
    "length (cpl_weight (fst (col_ranks ! r))) = k"
    "\<forall>w\<in>set (cpl_weight (fst (col_ranks ! r))). length w = m"
    "case cpl_bias (fst (col_ranks ! r)) of None \<Rightarrow> True | Some a \<Rightarrow> length a = k"
    if "r < ?p" for r
    using assms(3) mem[OF that] by (auto simp: case_prod_beta)
  have fw: "ColumnParallelLinear_forward col_ranks r
            = Inr (dense_linear x (cpl_weight (fst (col_ranks ! r))) (cpl_bias (fst (col_ranks ! r))))"
    if "r < ?p" for r
  proof -
    have "F_linear x (cpl_weight (fst (col_ranks ! r))) (cpl_bias (fst (col_ranks ! r)))
          = Inr (dense_linear x (cpl_weight (fst (col_ranks ! r))) (cpl_bias (fst (col_ranks ! r))))"
      using colr[OF that] assms(5)
      by (intro F_linear_dense[where m = m]) (auto split: option.splits)
    then show ?thesis
      using colr(1,2)[OF that]
      by (simp add: ColumnParallelLinear_forward_def ColumnParallelLinear_output_parallel_def
          copy_to_model_parallel_region_def case_prod_beta)
  qed
  have "those_err (map (ColumnParallelLinear_forward col_ranks) [0 ..< ?p])
        = Inr (map (\<lambda>r. dense_linear x (cpl_weight (fst (col_ranks ! r)))
                          (cpl_bias (fst (col_ranks ! r)))) [0 ..< ?p])"
    by (rule those_err_Inr) (simp add: fw)
  moreover have "map (\<lambda>r. dense_linear x (cpl_weight (fst (col_ranks ! r)))
                          (cpl_bias (fst (col_ranks ! r)))) [0 ..< ?p] = ?hidden"
    by (auto intro!: nth_equalityI simp: case_prod_beta)
  ultimately have comp: "column_then_row col_ranks row_layers rank
        = RowParallelLinear_forward ?ranks rank"
    by (simp add: column_then_row_def)
  have hid: "length h = length x \<and> (\<forall>row\<in>set h. length row = k)" if "h \<in> set ?hidden" for h
  proof -
    from that obtain self input where si: "(self, input) \<in> set col_ranks"
      and h: "h = dense_linear x (cpl_weight self) (cpl_bias self)" by auto
    have "length (cpl_weight self) = k" using assms(3) si by fastforce
    then show ?thesis by (auto simp: h dense_linear_def)
  qed
  have r1: "rank < length ?ranks" using assms(1,2) by simp
  have r2: "\<forall>(self, input)\<in>set ?ranks.
           length (rpl_weight self) = out \<and> (\<forall>w\<in>set (rpl_weight self). length w = k)"
    using assms(6) by (auto dest!: set_zip_leftD)
  have r3: "case rpl_bias (fst (?ranks ! rank)) of None \<Rightarrow> True | Some b \<Rightarrow> length b = out"
    using assms(1,2,7) by simp
  have sndr: "map snd ?ranks = ?hidden" using assms(2) by simp
  have r4: "(\<forall>(self, input)\<in>set ?ranks.
            rpl_input_is_parallel self \<and> length input = length x \<and> (\<forall>row\<in>set input. length row = k))
         \<and> cat_dim1 ?hidden = cat_dim1 (map snd ?ranks)
         \<or> (\<forall>(self, input)\<in>set ?ranks. \<not> rpl_input_is_parallel self \<and> input = cat_dim1 ?hidden)
         \<and> (\<forall>row\<in>set (cat_dim1 ?hidden). length row = length ?ranks * k)"
  proof (intro disjI1 conjI ballI)
    fix y assume y: "y \<in> set ?ranks"
    obtain self input where yy: "y = (self, input)" by (cases y)
    have "self \<in> set row_layers" "input \<in> set ?hidden"
      using y unfolding yy by (auto dest: set_zip_leftD set_zip_rightD)
    then show "case y of (self, input) \<Rightarrow>
            rpl_input_is_parallel self \<and> length input = length x \<and> (\<forall>row\<in>set input. length row = k)"
      using assms(6) hid unfolding yy by simp
  next
    show "cat_dim1 ?hidden = cat_dim1 (map snd ?ranks)" by (simp only: sndr)
  qed
  have wts: "map (\<lambda>(self, input). rpl_weight self) ?ranks = map rpl_weight row_layers"
    using assms(2) by (auto intro!: nth_equalityI)
  have row: "RowParallelLinear_forward ?ranks rank =
           Inr (dense_linear (cat_dim1 ?hidden) (cat_dim1 (map rpl_weight row_layers))
                  (rpl_bias (row_layers ! rank)))"
    using row_parallel_linear_forward[OF r1 r2 r3 r4, THEN conjunct2] assms(1,2)
    by (simp only: wts) simp
  have cat: "cat_dim1 ?hidden
        = dense_linear x (cat_dim0 (map fst ?shards)) (cat_bias (map snd ?shards))"
  proof (rule column_outputs_cat[where m = m])
    show "?shards \<noteq> []" using p by simp
    show "\<forall>(A, a)\<in>set ?shards. (\<forall>w\<in>set A. length w = m)
           \<and> (case a of None \<Rightarrow> True | Some av \<Rightarrow> length av = length A)"
      using assms(3) by (auto split: option.splits)
    show "(\<forall>(A, a)\<in>set ?shards. a = None) \<or> (\<forall>(A, a)\<in>set ?shards. a \<noteq> None)"
      using assms(4) by (elim disjE) (auto simp: case_prod_beta)
    show "\<forall>row\<in>set x. length row = m" by (rule assms(5))
  qed
  have f: "map fst ?shards = map (\<lambda>(self, input). cpl_weight self) col_ranks"
    and s: "map snd ?shards = map (\<lambda>(self, input). cpl_bias self) col_ranks"
    by (simp_all add: comp_def case_prod_beta)
  show ?thesis
    by (simp only: comp row cat f s)
qed


theorem column_then_row_dense_witness:
  "column_then_row
     [(\<lparr>cpl_input_size = 1, cpl_output_size = 2, cpl_gather_output = False,
        cpl_output_size_per_partition = 1, cpl_weight = [[2]], cpl_bias = Some [1],
        cpl_master_weight = None\<rparr>, [[1]]),
      (\<lparr>cpl_input_size = 1, cpl_output_size = 2, cpl_gather_output = False,
        cpl_output_size_per_partition = 1, cpl_weight = [[3]], cpl_bias = Some [0],
        cpl_master_weight = None\<rparr>, [[1]])]
     [\<lparr>rpl_input_size = 2, rpl_output_size = 1, rpl_input_is_parallel = True,
       rpl_input_size_per_partition = 1, rpl_weight = [[1]], rpl_bias = Some [5],
       rpl_master_weight = None\<rparr>,
      \<lparr>rpl_input_size = 2, rpl_output_size = 1, rpl_input_is_parallel = True,
       rpl_input_size_per_partition = 1, rpl_weight = [[2]], rpl_bias = Some [5],
       rpl_master_weight = None\<rparr>] 0
   = Inr [[14]]"
proof -
  let ?c0 = "\<lparr>cpl_input_size = 1, cpl_output_size = 2, cpl_gather_output = False,
        cpl_output_size_per_partition = 1, cpl_weight = [[2]], cpl_bias = Some [1],
        cpl_master_weight = None\<rparr>"
  let ?c1 = "\<lparr>cpl_input_size = 1, cpl_output_size = 2, cpl_gather_output = False,
        cpl_output_size_per_partition = 1, cpl_weight = [[3]], cpl_bias = Some [0],
        cpl_master_weight = None\<rparr>"
  let ?r0 = "\<lparr>rpl_input_size = 2, rpl_output_size = 1, rpl_input_is_parallel = True,
       rpl_input_size_per_partition = 1, rpl_weight = [[1]], rpl_bias = Some [5],
       rpl_master_weight = None\<rparr>"
  let ?r1 = "\<lparr>rpl_input_size = 2, rpl_output_size = 1, rpl_input_is_parallel = True,
       rpl_input_size_per_partition = 1, rpl_weight = [[2]], rpl_bias = Some [5],
       rpl_master_weight = None\<rparr>"
  let ?x = "[[1]] :: mat"
  let ?cols = "[(?c0, ?x), (?c1, ?x)]"
  let ?rows = "[?r0, ?r1]"
  have h1: "0 < length ?cols" by simp
  have h2: "length ?rows = length ?cols" by simp
  have h3: "\<forall>(self, input)\<in>set ?cols.
           \<not> cpl_gather_output self \<and> input = ?x
           \<and> length (cpl_weight self) = 1 \<and> (\<forall>w\<in>set (cpl_weight self). length w = 1)
           \<and> (case cpl_bias self of None \<Rightarrow> True | Some a \<Rightarrow> length a = 1)"
    by simp
  have h4: "(\<forall>(self, input)\<in>set ?cols. cpl_bias self = None)
         \<or> (\<forall>(self, input)\<in>set ?cols. cpl_bias self \<noteq> None)"
    by simp
  have h5: "\<forall>row\<in>set ?x. length row = 1" by simp
  have h6: "\<forall>self\<in>set ?rows.
           rpl_input_is_parallel self
           \<and> length (rpl_weight self) = 1 \<and> (\<forall>w\<in>set (rpl_weight self). length w = 1)"
    by simp
  have h7: "case rpl_bias (?rows ! 0) of None \<Rightarrow> True | Some b \<Rightarrow> length b = 1"
    by simp
  have up: "[0 ..< 2] = [0, 1]" by (simp add: upt_rec)
  from column_then_row_dense[OF h1 h2 h3 h4 h5 h6 h7]
  show ?thesis
    by (simp add: dense_linear_def cat_dim0_def cat_dim1_def cat_bias_def up)
qed

end
